theory Spec2Isabelle
  imports Main
begin

section \<open>The token handler of \<open>src/spotifytoken.js\<close>\<close>

text \<open>
  The module is asynchronous JavaScript on one thread: code runs to completion between
  two \<open>await\<close>s, and what happens at a suspension point (a timer firing, a page event,
  a promise settling) is decided by the environment. Every function below is the
  synchronous stretch of code between two suspension points, and the environment is a
  list of events that a \<open>fold\<close> feeds to those functions in order.
\<close>

subsection \<open>Numbers and the cached token\<close>

text \<open>
  \<open>SpotifyToken\<close> follows the JSDoc typedef at the end of the source (a string and a
  number), with the \<open>_notes\<close> property (\<open>notes_field\<close>) that the raw response may carry and that
  \<open>getAccessToken\<close> deletes. Timestamps are milliseconds, read as integers
  (\<open>Date.now()\<close> is one).
\<close>

record SpotifyToken =
  accessToken :: string
  accessTokenExpirationTimestampMs :: int
  notes_field :: "string option"

text \<open>
  A JavaScript number is a value or \<open>NaN\<close>: \<open>undefined - 10000\<close> is \<open>NaN\<close>, and every
  comparison with \<open>NaN\<close> is false.
\<close>

datatype jsnum = NaN | Num int

fun js_minus :: "jsnum \<Rightarrow> jsnum \<Rightarrow> jsnum" where
  "js_minus (Num a) (Num b) = Num (a - b)"
| "js_minus _ _ = NaN"

fun js_gt :: "jsnum \<Rightarrow> jsnum \<Rightarrow> bool" where
  "js_gt (Num a) (Num b) = (a > b)"
| "js_gt _ _ = False"

text \<open>
  \<open>this.data?.accessTokenExpirationTimestampMs\<close> as the number the subtraction sees:
  the optional chain gives \<open>undefined\<close> on an empty slot, which converts to \<open>NaN\<close>.
\<close>

fun expirationOf :: "SpotifyToken option \<Rightarrow> jsnum" where
  "expirationOf None = NaN"
| "expirationOf (Some t) = Num (accessTokenExpirationTimestampMs t)"

text \<open>
  \<open>valid() { return this.data?.accessTokenExpirationTimestampMs - 10000 > Date.now(); }\<close>
  with the slot and the clock as arguments.
\<close>

definition valid :: "SpotifyToken option \<Rightarrow> int \<Rightarrow> bool" where
  "valid data now = js_gt (js_minus (expirationOf data) (Num 10000)) (Num now)"

subsection \<open>Semaphore\<close>

text \<open>
  \<open>_waiters\<close> holds the \<open>resolve\<close> callbacks of the suspended callers; the model
  names each by the caller it resumes.
\<close>

record Semaphore =
  locked :: bool
  waiters :: "nat list"

definition new_Semaphore :: Semaphore where
  "new_Semaphore = \<lparr>locked = False, waiters = []\<rparr>"

text \<open>
  \<open>acquire()\<close> by caller \<open>t\<close>: the flag says whether the returned promise is already
  resolved with the release function (\<open>True\<close>) or pending in the queue (\<open>False\<close>).
\<close>

definition acquire :: "nat \<Rightarrow> Semaphore \<Rightarrow> Semaphore \<times> bool" where
  "acquire t s =
     (if locked s then (s\<lparr>waiters := waiters s @ [t]\<rparr>, False)
      else (s\<lparr>locked := True\<rparr>, True))"

text \<open>
  \<open>_release()\<close>: \<open>shift()\<close> takes the first waiter, or \<open>undefined\<close> from an empty
  array; the result names the waiter whose promise was resolved, if any.
\<close>

definition release :: "Semaphore \<Rightarrow> Semaphore \<times> nat option" where
  "release s =
     (case waiters s of
        w # ws \<Rightarrow> (s\<lparr>waiters := ws\<rparr>, Some w)
      | [] \<Rightarrow> (s\<lparr>locked := False\<rparr>, None))"

text \<open>
  How callers use the lock. \<open>Acquire t\<close> is caller \<open>t\<close> calling \<open>acquire()\<close>;
  \<open>Release t\<close> is caller \<open>t\<close> calling the release function it was given. The
  semaphore itself stores only \<open>_locked\<close> and \<open>_waiters\<close>; the other three fields
  record what happened, to state properties with: who holds a release function not yet
  called (\<open>holders\<close>), who was suspended, in order of arrival (\<open>arrivals\<close>), and who
  was resumed by a release, in order (\<open>resumed\<close>).
\<close>

datatype mutex_op = Acquire nat | Release nat

record mutex_trace =
  sem :: Semaphore
  holders :: "nat list"
  arrivals :: "nat list"
  resumed :: "nat list"

definition mutex_start :: mutex_trace where
  "mutex_start = \<lparr>sem = new_Semaphore, holders = [], arrivals = [], resumed = []\<rparr>"

fun mutex_step :: "mutex_op \<Rightarrow> mutex_trace \<Rightarrow> mutex_trace" where
  "mutex_step (Acquire t) m =
     (case acquire t (sem m) of
        (s', True) \<Rightarrow> m\<lparr>sem := s', holders := holders m @ [t]\<rparr>
      | (s', False) \<Rightarrow> m\<lparr>sem := s', arrivals := arrivals m @ [t]\<rparr>)"
| "mutex_step (Release t) m =
     (case release (sem m) of
        (s', Some w) \<Rightarrow>
          m\<lparr>sem := s', holders := remove1 t (holders m) @ [w], resumed := resumed m @ [w]\<rparr>
      | (s', None) \<Rightarrow> m\<lparr>sem := s', holders := remove1 t (holders m)\<rparr>)"

definition mutex_run :: "mutex_op list \<Rightarrow> mutex_trace \<Rightarrow> mutex_trace" where
  "mutex_run ops m = fold mutex_step ops m"

text \<open>
  A sequence of operations respects the protocol when a release function is called only
  by a caller that holds one, as \<open>handler0\<close> does in its \<open>finally\<close> block.
\<close>

fun conforming :: "mutex_trace \<Rightarrow> mutex_op list \<Rightarrow> bool" where
  "conforming m [] = True"
| "conforming m (Acquire t # ops) = conforming (mutex_step (Acquire t) m) ops"
| "conforming m (Release t # ops) =
     (t \<in> set (holders m) \<and> conforming (mutex_step (Release t) m) ops)"

definition mutex_inv :: "mutex_trace \<Rightarrow> bool" where
  "mutex_inv m =
     ((locked (sem m) \<longleftrightarrow> holders m \<noteq> [])
      \<and> (waiters (sem m) \<noteq> [] \<longrightarrow> locked (sem m))
      \<and> length (holders m) \<le> 1)"

subsection \<open>getAccessToken\<close>

text \<open>
  The promise that \<open>getAccessToken\<close> returns is pending (\<open>None\<close>) or settled. A
  JavaScript promise keeps its first settlement: \<open>resolve\<close> and \<open>reject\<close> on a settled
  promise do nothing.
\<close>

datatype settlement = Resolved SpotifyToken | Rejected string

record attempt =
  settled :: "settlement option"
  closeCalls :: nat
  processedAccessTokenRequest :: bool
  listening :: bool
  timerPending :: bool
  gotoPending :: bool
  awaitingResponse :: nat
  awaitingJson :: nat
  warnings :: "string list"
  uncaught :: "string list"

definition new_attempt :: attempt where
  "new_attempt =
     \<lparr>settled = None, closeCalls = 0, processedAccessTokenRequest = False,
      listening = False, timerPending = False, gotoPending = False,
      awaitingResponse = 0, awaitingJson = 0, warnings = [], uncaught = []\<rparr>"

definition resolve :: "SpotifyToken \<Rightarrow> attempt \<Rightarrow> attempt" where
  "resolve v a = (if settled a = None then a\<lparr>settled := Some (Resolved v)\<rparr> else a)"

definition reject :: "string \<Rightarrow> attempt \<Rightarrow> attempt" where
  "reject e a = (if settled a = None then a\<lparr>settled := Some (Rejected e)\<rparr> else a)"

text \<open>\<open>browser.close()\<close>, counted.\<close>

definition browser_close :: "attempt \<Rightarrow> attempt" where
  "browser_close a = a\<lparr>closeCalls := Suc (closeCalls a)\<rparr>"

text \<open>\<open>s.includes(sub)\<close> on strings.\<close>

fun starts_with :: "string \<Rightarrow> string \<Rightarrow> bool" where
  "starts_with s [] = True"
| "starts_with [] (c # cs) = False"
| "starts_with (x # xs) (c # cs) = (x = c \<and> starts_with xs cs)"

fun js_includes :: "string \<Rightarrow> string \<Rightarrow> bool" where
  "js_includes [] sub = (sub = [])"
| "js_includes (x # xs) sub = (starts_with (x # xs) sub \<or> js_includes xs sub)"

text \<open>
  The body of the promise executor up to its end, lines 52 to 105. The two arguments say
  whether \<open>chromium.launch()\<close> and \<open>browser.newPage()\<close> gave an object (\<open>True\<close>) or
  were rejected, which the \<open>catch\<close> turns into \<open>undefined\<close>. Without a browser the
  executor rejects and returns. Without a page it closes the browser and rejects, and
  then goes on, since that branch has no \<open>return\<close>: the flag is initialised, the timer is
  set, and \<open>page.addListener\<close> on \<open>undefined\<close> throws a TypeError that nothing
  catches, so the listener and the navigation are never set up.
\<close>

definition getAccessToken :: "bool \<Rightarrow> bool \<Rightarrow> attempt" where
  "getAccessToken browser page =
     (if \<not> browser then reject ''Failed to launch browser'' new_attempt
      else
        let a1 = (if \<not> page
                  then reject ''Failed to open new page'' (browser_close new_attempt)
                  else new_attempt);
            a2 = a1\<lparr>processedAccessTokenRequest := False, timerPending := True\<rparr>
        in if \<not> page
           then a2\<lparr>uncaught := uncaught a2 @
                  [''TypeError: Cannot read properties of undefined (reading addListener)'']\<rparr>
           else a2\<lparr>listening := True, gotoPending := True\<rparr>)"

text \<open>
  What can happen to an attempt afterwards:
  \<^item> \<open>DeadlineTimer\<close>: the 15000 ms timer fires; it is never cleared, so it fires once
    in every attempt that set it;
  \<^item> \<open>RequestFinished url\<close>: the page emits \<open>requestfinished\<close> for a request to \<open>url\<close>;
  \<^item> \<open>ResponseSettled r\<close>: a listener call suspended at \<open>await event.response()\<close>
    goes on with \<open>r\<close>, which is \<open>None\<close> for \<open>null\<close> (no response, or the promise was
    rejected) and \<open>Some ok\<close> for a response whose \<open>ok()\<close> is \<open>ok\<close>;
  \<^item> \<open>JsonSettled j\<close>: a listener call suspended at \<open>await response.json()\<close> goes on
    with \<open>j\<close>, which is \<open>None\<close> for \<open>null\<close> (the body did not parse);
  \<^item> \<open>GotoFailed err\<close>: the promise of \<open>page.goto\<close> is rejected with \<open>err\<close>.
  An event that has nothing to act on (no timer set, no listener attached, no suspended
  listener call) leaves the attempt as it is.
\<close>

datatype fetch_event =
    DeadlineTimer
  | RequestFinished string
  | ResponseSettled "bool option"
  | JsonSettled "SpotifyToken option"
  | GotoFailed string

text \<open>Lines 87 to 89: the listener's failure branch.\<close>

definition invalid_response :: "attempt \<Rightarrow> attempt" where
  "invalid_response a =
     reject ''Invalid response from Spotify.'' (browser_close (a\<lparr>listening := False\<rparr>))"

fun on_event :: "fetch_event \<Rightarrow> attempt \<Rightarrow> attempt" where
  "on_event DeadlineTimer a =
     (if \<not> timerPending a then a
      else
        let a1 = (if \<not> processedAccessTokenRequest a
                  then a\<lparr>warnings := warnings a @
                    [''Deadline exceeded without processing access token request, did the endpoint change?'']\<rparr>
                  else a)
        in (reject ''Token fetch exceeded deadline'' (browser_close a1))\<lparr>timerPending := False\<rparr>)"
| "on_event (RequestFinished url) a =
     (if \<not> listening a then a
      else if \<not> js_includes url ''/api/token'' then a
      else a\<lparr>processedAccessTokenRequest := True, awaitingResponse := Suc (awaitingResponse a)\<rparr>)"
| "on_event (ResponseSettled r) a =
     (if awaitingResponse a = 0 then a
      else
        let a1 = a\<lparr>awaitingResponse := awaitingResponse a - 1\<rparr>
        in (case r of
              None \<Rightarrow> invalid_response a1
            | Some ok \<Rightarrow>
                if \<not> ok then invalid_response a1
                else a1\<lparr>awaitingJson := Suc (awaitingJson a1)\<rparr>))"
| "on_event (JsonSettled j) a =
     (if awaitingJson a = 0 then a
      else
        let a1 = browser_close (a\<lparr>awaitingJson := awaitingJson a - 1, listening := False\<rparr>)
        in (case j of
              None \<Rightarrow>
                a1\<lparr>uncaught := uncaught a1 @
                  [''TypeError: Cannot convert undefined or null to object'']\<rparr>
            | Some json \<Rightarrow> resolve (json\<lparr>notes_field := None\<rparr>) a1))"
| "on_event (GotoFailed err) a =
     (if \<not> gotoPending a then a
      else
        let a1 = a\<lparr>gotoPending := False\<rparr>
        in if \<not> processedAccessTokenRequest a1
           then reject (''Failed to goto URL: '' @ err) (browser_close a1)
           else a1)"

definition run_attempt :: "fetch_event list \<Rightarrow> attempt \<Rightarrow> attempt" where
  "run_attempt es a = fold on_event es a"

text \<open>
  What every attempt that got its browser and its page keeps true: the promise is settled
  once the timer is no longer pending, and a settled promise means that \<open>browser.close()\<close>
  has been called.
\<close>

definition attempt_inv :: "attempt \<Rightarrow> bool" where
  "attempt_inv a =
     ((\<not> timerPending a \<longrightarrow> settled a \<noteq> None)
      \<and> (settled a \<noteq> None \<longrightarrow> 1 \<le> closeCalls a))"

subsection \<open>handler0\<close>

text \<open>
  What \<open>handler0\<close> leaves in \<open>ctx\<close>: the status, when it sets one, and the body, which
  is the cached value, the fetched value or \<open>{}\<close>.
\<close>

datatype ctx_body = Undefined | Token SpotifyToken | EmptyObject

record ctx =
  status :: "nat option"
  body :: ctx_body

text \<open>
  Where a call of \<open>handler0\<close> stands: not made yet, suspended in \<open>acquire()\<close> in the
  queue, given the release function but not yet running again, suspended at
  \<open>await token.refresh()\<close>, or returned. The flag is the call's \<open>isForce\<close>.
\<close>

datatype pc = NotCalled | Queued bool | Granted bool | Refreshing | Returned ctx

record handler =
  cachedAccessToken :: "SpotifyToken option"
  semaphore :: Semaphore
  calls :: "nat \<Rightarrow> pc"
  fetchCalls :: nat
  errors :: "string list"

text \<open>The constructor, with the slot as found (\<open>None\<close> is \<open>undefined\<close>).\<close>

definition new_handler :: "SpotifyToken option \<Rightarrow> handler" where
  "new_handler c =
     \<lparr>cachedAccessToken = c, semaphore = new_Semaphore, calls = (\<lambda>_. NotCalled),
      fetchCalls = 0, errors = []\<rparr>"

text \<open>\<open>ctx.body = token.data\<close>.\<close>

definition data_body :: "SpotifyToken option \<Rightarrow> ctx_body" where
  "data_body d = (case d of None \<Rightarrow> Undefined | Some t \<Rightarrow> Token t)"

text \<open>
  The \<open>finally\<close> block and the return of call \<open>i\<close>: \<open>release()\<close> either resolves the
  promise of the first queued call, which from then on has the release function, or
  clears the flag.
\<close>

definition finish :: "nat \<Rightarrow> ctx \<Rightarrow> handler \<Rightarrow> handler" where
  "finish i c h =
     (case release (semaphore h) of
        (s', w) \<Rightarrow>
          let h1 = h\<lparr>semaphore := s', calls := (calls h)(i := Returned c)\<rparr>
          in (case w of
                None \<Rightarrow> h1
              | Some j \<Rightarrow>
                  h1\<lparr>calls := (calls h1)(j := (case calls h1 j of Queued f \<Rightarrow> Granted f | p \<Rightarrow> p))\<rparr>))"

text \<open>
  The three stretches of \<open>handler0\<close>:
  \<^item> \<open>Call i isForce now\<close>: call \<open>i\<close> is made at time \<open>now\<close> and runs up to
    \<open>await this.semaphore.acquire()\<close> (lines 145 to 151);
  \<^item> \<open>Resume i now\<close>: call \<open>i\<close>, which has the release function, runs the \<open>try\<close> block
    at time \<open>now\<close>, to the end when the second check finds a valid token, else up to
    \<open>await token.refresh()\<close>, which has called \<open>getAccessToken\<close> (lines 153 to 158);
  \<^item> \<open>FetchSettled i r\<close>: the promise of \<open>getAccessToken\<close> settles with \<open>r\<close> and call
    \<open>i\<close> runs to its end: on success the \<open>then\<close> callback stores the token and the body
    is set, on failure the \<open>catch\<close> block logs, sets status 500 and body \<open>{}\<close>; both end
    in \<open>finally\<close> (lines 138 to 141 and 158 to 166).
  An event for a call that is not at that point leaves the state as it is.
\<close>

datatype handler_event =
    Call nat bool int
  | Resume nat int
  | FetchSettled nat settlement

fun handler0 :: "handler_event \<Rightarrow> handler \<Rightarrow> handler" where
  "handler0 (Call i isForce now) h =
     (case calls h i of
        NotCalled \<Rightarrow>
          if \<not> isForce \<and> valid (cachedAccessToken h) now
          then h\<lparr>calls := (calls h)(i := Returned \<lparr>status = None, body = data_body (cachedAccessToken h)\<rparr>)\<rparr>
          else (case acquire i (semaphore h) of
                  (s', granted) \<Rightarrow>
                    h\<lparr>semaphore := s',
                      calls := (calls h)(i := (if granted then Granted isForce else Queued isForce))\<rparr>)
      | _ \<Rightarrow> h)"
| "handler0 (Resume i now) h =
     (case calls h i of
        Granted isForce \<Rightarrow>
          if \<not> isForce \<and> valid (cachedAccessToken h) now
          then finish i \<lparr>status = None, body = data_body (cachedAccessToken h)\<rparr> h
          else h\<lparr>fetchCalls := Suc (fetchCalls h), calls := (calls h)(i := Refreshing)\<rparr>
      | _ \<Rightarrow> h)"
| "handler0 (FetchSettled i r) h =
     (case calls h i of
        Refreshing \<Rightarrow>
          (case r of
             Resolved data \<Rightarrow>
               finish i \<lparr>status = None, body = Token data\<rparr> (h\<lparr>cachedAccessToken := Some data\<rparr>)
           | Rejected e \<Rightarrow>
               finish i \<lparr>status = Some 500, body = EmptyObject\<rparr> (h\<lparr>errors := errors h @ [e]\<rparr>))
      | _ \<Rightarrow> h)"

definition run_handler :: "handler_event list \<Rightarrow> handler \<Rightarrow> handler" where
  "run_handler es h = fold handler0 es h"

text \<open>
  The lock as \<open>handler0\<close> uses it. A call holds the lock from the moment it is given the
  release function until its \<open>finally\<close> block; a call is queued while suspended in
  \<open>acquire()\<close>. The invariant: the flag is set exactly when some call holds the lock, at
  most one call does, the queue lists the queued calls, each once, and is empty when the
  flag is clear.
\<close>

fun holds :: "pc \<Rightarrow> bool" where
  "holds (Granted f) = True"
| "holds Refreshing = True"
| "holds _ = False"

fun queued :: "pc \<Rightarrow> bool" where
  "queued (Queued f) = True"
| "queued _ = False"

definition handler_inv :: "handler \<Rightarrow> bool" where
  "handler_inv h =
     ((locked (semaphore h) \<longleftrightarrow> (\<exists>i. holds (calls h i)))
      \<and> (\<forall>i j. holds (calls h i) \<and> holds (calls h j) \<longrightarrow> i = j)
      \<and> (\<forall>i. i \<in> set (waiters (semaphore h)) \<longleftrightarrow> queued (calls h i))
      \<and> distinct (waiters (semaphore h))
      \<and> (waiters (semaphore h) \<noteq> [] \<longrightarrow> locked (semaphore h)))"


text \<open>
  \<open>n\<close> calls \<open>get(false)\<close>, numbered from 0 in order of arrival, that overlap: the first
  \<open>k\<close> arrive before call 0 runs again and starts the fetch, the others while the fetch
  is in flight; the fetch settles with \<open>r\<close>; then the queued calls run again, each when
  the one before it releases. Call \<open>i\<close> reads the clock as \<open>tc i\<close> on arrival and as
  \<open>tr i\<close> when it has the lock.
\<close>

definition concurrent_gets ::
  "nat \<Rightarrow> nat \<Rightarrow> (nat \<Rightarrow> int) \<Rightarrow> (nat \<Rightarrow> int) \<Rightarrow> settlement \<Rightarrow> handler_event list" where
  "concurrent_gets k n tc tr r =
     map (\<lambda>i. Call i False (tc i)) [0..<k] @ [Resume 0 (tr 0)]
     @ map (\<lambda>i. Call i False (tc i)) [k..<n] @ [FetchSettled 0 r]
     @ map (\<lambda>i. Resume i (tr i)) [1..<n]"

section \<open>Validity of the cached token\<close>

lemma valid_Some: "valid (Some c) now = (now < accessTokenExpirationTimestampMs c - 10000)"
  by (simp add: valid_def)

lemma valid_None: "valid None now = False"
  by (simp add: valid_def)

text \<open>
  Claim C3. A cached credential is valid exactly when
  \<open>now < expiry - 10000\<close>, strictly: with \<open>expiry - now = 10000\<close> it is invalid, with
  \<open>10001\<close> valid, with \<open>9999\<close> invalid.
\<close>

theorem C3_validity_boundary:
  "valid (Some c) now = (now < accessTokenExpirationTimestampMs c - 10000)
   \<and> \<not> valid (Some (c\<lparr>accessTokenExpirationTimestampMs := now + 10000\<rparr>)) now
   \<and> valid (Some (c\<lparr>accessTokenExpirationTimestampMs := now + 10001\<rparr>)) now
   \<and> \<not> valid (Some (c\<lparr>accessTokenExpirationTimestampMs := now + 9999\<rparr>)) now"
  by (simp add: valid_Some)

section \<open>The semaphore\<close>

lemma fifo_step:
  "resumed m @ waiters (sem m) = arrivals m \<Longrightarrow>
   resumed (mutex_step op m) @ waiters (sem (mutex_step op m)) = arrivals (mutex_step op m)"
  by (cases op) (auto simp: acquire_def release_def split: list.splits)

lemma fifo_fold:
  "resumed m @ waiters (sem m) = arrivals m \<Longrightarrow>
   resumed (fold mutex_step ops m) @ waiters (sem (fold mutex_step ops m)) = arrivals (fold mutex_step ops m)"
  by (induction ops arbitrary: m) (simp_all add: fifo_step)

lemma queue_locked_step:
  "(waiters (sem m) \<noteq> [] \<longrightarrow> locked (sem m)) \<Longrightarrow>
   (waiters (sem (mutex_step op m)) \<noteq> [] \<longrightarrow> locked (sem (mutex_step op m)))"
  by (cases op) (auto simp: acquire_def release_def split: list.splits)

lemma queue_locked_fold:
  "(waiters (sem m) \<noteq> [] \<longrightarrow> locked (sem m)) \<Longrightarrow>
   (waiters (sem (fold mutex_step ops m)) \<noteq> [] \<longrightarrow> locked (sem (fold mutex_step ops m)))"
proof (induction ops arbitrary: m)
  case Nil
  then show ?case by simp
next
  case (Cons op ops)
  from Cons.prems have "waiters (sem (mutex_step op m)) \<noteq> [] \<longrightarrow> locked (sem (mutex_step op m))"
    by (rule queue_locked_step)
  then show ?case using Cons.IH by simp
qed

lemma release_handoff:
  "waiters s = w # ws \<Longrightarrow> release s = (s\<lparr>waiters := ws\<rparr>, Some w)"
  by (simp add: release_def)

lemma release_free:
  "waiters s = [] \<Longrightarrow> release s = (s\<lparr>locked := False\<rparr>, None)"
  by (simp add: release_def)

text \<open>
  Claim C7. After any sequence of \<open>acquire\<close> and \<open>release\<close> calls, the callers resumed
  so far, followed by those still queued, are the suspended callers in order of arrival:
  waiters are resumed first in, first out. A release with a waiter queued resumes the
  first one and leaves the lock flag set; a release with none queued clears the flag.
\<close>

theorem C7_fifo_handoff:
  "resumed (mutex_run ops mutex_start) @ waiters (sem (mutex_run ops mutex_start))
     = arrivals (mutex_run ops mutex_start)
   \<and> (\<forall>w ws. waiters (sem (mutex_run ops mutex_start)) = w # ws \<longrightarrow>
         release (sem (mutex_run ops mutex_start))
           = ((sem (mutex_run ops mutex_start))\<lparr>waiters := ws\<rparr>, Some w)
         \<and> locked (fst (release (sem (mutex_run ops mutex_start)))))
   \<and> (waiters (sem (mutex_run ops mutex_start)) = [] \<longrightarrow>
         snd (release (sem (mutex_run ops mutex_start))) = None
         \<and> \<not> locked (fst (release (sem (mutex_run ops mutex_start)))))"
proof -
  let ?m = "mutex_run ops mutex_start"
  have start: "resumed mutex_start @ waiters (sem mutex_start) = arrivals mutex_start"
    by (simp add: mutex_start_def new_Semaphore_def)
  have order: "resumed ?m @ waiters (sem ?m) = arrivals ?m"
    unfolding mutex_run_def using start by (rule fifo_fold)
  have "waiters (sem mutex_start) \<noteq> [] \<longrightarrow> locked (sem mutex_start)"
    by (simp add: mutex_start_def new_Semaphore_def)
  then have held: "waiters (sem ?m) \<noteq> [] \<longrightarrow> locked (sem ?m)"
    unfolding mutex_run_def by (rule queue_locked_fold)
  have handoff: "release (sem ?m) = ((sem ?m)\<lparr>waiters := ws\<rparr>, Some w)
       \<and> locked (fst (release (sem ?m)))" if "waiters (sem ?m) = w # ws" for w ws
    using that held by (simp add: release_handoff)
  have free: "snd (release (sem ?m)) = None \<and> \<not> locked (fst (release (sem ?m)))"
    if "waiters (sem ?m) = []"
    using that by (simp add: release_free)
  show ?thesis using order handoff free by blast
qed

theorem C7_fifo_handoff_witness:
  "resumed (mutex_run [Acquire 0, Acquire 1, Acquire 2, Acquire 3, Release 0, Release 1] mutex_start) = [1, 2]
   \<and> waiters (sem (mutex_run [Acquire 0, Acquire 1, Acquire 2, Acquire 3, Release 0, Release 1] mutex_start)) = [3]
   \<and> arrivals (mutex_run [Acquire 0, Acquire 1, Acquire 2, Acquire 3, Release 0, Release 1] mutex_start) = [1, 2, 3]
   \<and> release (sem (mutex_run [Acquire 0, Acquire 1, Acquire 2, Acquire 3, Release 0, Release 1] mutex_start))
       = (\<lparr>locked = True, waiters = []\<rparr>, Some 3)"
  using C7_fifo_handoff [of "[Acquire 0, Acquire 1, Acquire 2, Acquire 3, Release 0, Release 1]"]
  by (simp add: mutex_run_def mutex_start_def new_Semaphore_def acquire_def release_def)

lemma mutex_inv_step:
  "mutex_inv m \<Longrightarrow> conforming m [op] \<Longrightarrow> mutex_inv (mutex_step op m)"
proof (cases op)
  case (Acquire t)
  assume "mutex_inv m"
  then show ?thesis using Acquire
    by (auto simp: mutex_inv_def acquire_def)
next
  case (Release t)
  assume inv: "mutex_inv m" and "conforming m [op]"
  then have "t \<in> set (holders m)" using Release by simp
  moreover from inv have "length (holders m) \<le> 1" by (simp add: mutex_inv_def)
  ultimately have one: "holders m = [t]"
    by (cases "holders m") auto
  then show ?thesis using inv Release
    by (auto simp: mutex_inv_def release_def split: list.splits)
qed

lemma conforming_Cons:
  "conforming m (op # ops) = (conforming m [op] \<and> conforming (mutex_step op m) ops)"
  by (cases op) simp_all

lemma mutex_inv_fold:
  "mutex_inv m \<Longrightarrow> conforming m ops \<Longrightarrow> mutex_inv (fold mutex_step ops m)"
proof (induction ops arbitrary: m)
  case Nil
  then show ?case by simp
next
  case (Cons op ops)
  from Cons.prems(2) have c1: "conforming m [op]" and c2: "conforming (mutex_step op m) ops"
    by (simp_all add: conforming_Cons [of m op ops])
  from Cons.prems(1) c1 have "mutex_inv (mutex_step op m)" by (rule mutex_inv_step)
  then show ?case using Cons.IH c2 by simp
qed

subsection \<open>The lock in the handler\<close>

lemma handler_inv_start: "handler_inv (new_handler c)"
  by (simp add: handler_inv_def new_handler_def new_Semaphore_def)

lemma handler_inv_slot [simp]: "handler_inv (h\<lparr>cachedAccessToken := x\<rparr>) = handler_inv h"
  by (simp add: handler_inv_def)

lemma handler_inv_errors [simp]: "handler_inv (h\<lparr>errors := x\<rparr>) = handler_inv h"
  by (simp add: handler_inv_def)

lemma handler_inv_fetchCalls [simp]: "handler_inv (h\<lparr>fetchCalls := x\<rparr>) = handler_inv h"
  by (simp add: handler_inv_def)

lemma holds_not_queued: "holds p \<Longrightarrow> \<not> queued p"
  by (cases p) simp_all

lemma finish_inv:
  assumes "handler_inv h" and "holds (calls h i)"
  shows "handler_inv (finish i c h)"
proof -
  from assms(2) have nq: "\<not> queued (calls h i)" by (rule holds_not_queued)
  with assms(1) have out: "i \<notin> set (waiters (semaphore h))"
    by (simp add: handler_inv_def)
  show ?thesis
  proof (cases "waiters (semaphore h)")
    case Nil
    with assms show ?thesis
      unfolding handler_inv_def finish_def release_def
      by (auto simp: Let_def)
  next
    case (Cons w ws)
    with assms(1) have "queued (calls h w)" and "w \<notin> set ws"
      by (auto simp: handler_inv_def)
    then obtain f where f: "calls h w = Queued f"
      by (cases "calls h w") simp_all
    from out Cons have "w \<noteq> i" and "i \<notin> set ws" by auto
    have eq: "finish i c h = h\<lparr>semaphore := (semaphore h)\<lparr>waiters := ws\<rparr>,
        calls := (calls h)(i := Returned c, w := Granted f)\<rparr>"
      using Cons f \<open>w \<noteq> i\<close> by (simp add: finish_def release_def)
    have other: "j = i" if "holds (calls h j)" for j
      using assms that by (auto simp: handler_inv_def)
    have wait: "(j = w \<or> j \<in> set ws) = queued (calls h j)" for j
      using assms(1) Cons by (auto simp: handler_inv_def)
    have held: "locked (semaphore h)"
      using assms by (auto simp: handler_inv_def)
    have "distinct ws" using assms(1) Cons by (simp add: handler_inv_def)
    then show ?thesis
      unfolding eq handler_inv_def
      using f \<open>w \<noteq> i\<close> \<open>w \<notin> set ws\<close> \<open>i \<notin> set ws\<close> other wait held
      by (auto split: if_splits)
  qed
qed

lemma handler_inv_step: "handler_inv h \<Longrightarrow> handler_inv (handler0 ev h)"
proof (cases ev)
  case (Call i f now)
  assume inv: "handler_inv h"
  show ?thesis
  proof (cases "calls h i = NotCalled")
    case False
    then show ?thesis using Call inv by (simp split: pc.splits)
  next
    case True
    then have fresh: "i \<notin> set (waiters (semaphore h))"
      using inv by (simp add: handler_inv_def)
    have apart: "j \<noteq> i" if "holds (calls h j)" for j
      using that \<open>calls h i = NotCalled\<close> by auto
    show ?thesis
    proof (cases "\<not> f \<and> valid (cachedAccessToken h) now")
      case True
      with Call \<open>calls h i = NotCalled\<close> inv apart show ?thesis
        unfolding handler_inv_def by (auto split: if_splits)
    next
      case False
      with Call \<open>calls h i = NotCalled\<close> inv fresh apart show ?thesis
        unfolding handler_inv_def by (auto simp: acquire_def split: if_splits)
    qed
  qed
next
  case (Resume i now)
  assume inv: "handler_inv h"
  show ?thesis
  proof (cases "calls h i")
    case (Granted f)
    then have hold: "holds (calls h i)" by simp
    show ?thesis
    proof (cases "\<not> f \<and> valid (cachedAccessToken h) now")
      case True
      then show ?thesis using Resume Granted inv hold by (simp add: finish_inv)
    next
      case False
      have held: "locked (semaphore h)"
        using inv hold by (auto simp: handler_inv_def)
      have other: "j = i" if "holds (calls h j)" for j
        using inv hold that by (auto simp: handler_inv_def)
      have nq: "\<not> queued (calls h i)"
        using Granted by simp
      from False Resume Granted inv held other nq show ?thesis
        unfolding handler_inv_def by (auto split: if_splits)
    qed
  qed (use Resume inv in simp_all)
next
  case (FetchSettled i r)
  assume inv: "handler_inv h"
  show ?thesis
  proof (cases "calls h i")
    case Refreshing
    then have "holds (calls h i)" by simp
    then show ?thesis using FetchSettled Refreshing inv
      by (cases r) (simp_all add: finish_inv)
  qed (use FetchSettled inv in simp_all)
qed

lemma handler_inv_reachable: "handler_inv (run_handler es (new_handler c))"
proof -
  have "handler_inv h \<Longrightarrow> handler_inv (fold handler0 es h)" for h
    by (induction es arbitrary: h) (simp_all add: handler_inv_step)
  then show ?thesis
    unfolding run_handler_def using handler_inv_start by blast
qed

text \<open>
  Claim C8. The lock is marked held exactly when a caller holds a release function, and
  callers are queued only while it is held (and no two callers hold a release function
  at once). This holds at the start, is kept by every \<open>acquire\<close> and every \<open>release\<close> made by
  the holder, and so holds in every state reached that way. The handler uses the lock
  that way: whatever events reach it, the flag is set exactly when one of its calls holds
  the lock, and calls are queued only then.
\<close>

theorem C8_mutex_invariant:
  "mutex_inv mutex_start
   \<and> (mutex_inv m \<and> conforming m [op] \<longrightarrow> mutex_inv (mutex_step op m))
   \<and> (conforming mutex_start ops \<longrightarrow> mutex_inv (mutex_run ops mutex_start))
   \<and> handler_inv (run_handler es (new_handler c))"
proof -
  have start: "mutex_inv mutex_start"
    by (simp add: mutex_inv_def mutex_start_def new_Semaphore_def)
  then have "conforming mutex_start ops \<Longrightarrow> mutex_inv (mutex_run ops mutex_start)"
    unfolding mutex_run_def by (rule mutex_inv_fold)
  with start show ?thesis by (simp add: mutex_inv_step handler_inv_reachable)
qed

theorem C8_mutex_invariant_witness:
  "mutex_inv (mutex_run [Acquire 0, Acquire 1] mutex_start)
   \<and> conforming (mutex_run [Acquire 0, Acquire 1] mutex_start) [Release 0]
   \<and> mutex_inv (mutex_step (Release 0) (mutex_run [Acquire 0, Acquire 1] mutex_start))
   \<and> conforming mutex_start [Acquire 0, Acquire 1, Release 0, Acquire 2, Release 1, Release 2]
   \<and> mutex_inv (mutex_run [Acquire 0, Acquire 1, Release 0, Acquire 2, Release 1, Release 2] mutex_start)
   \<and> handler_inv (run_handler [Call 0 False 0, Call 1 True 0, Resume 0 1] (new_handler None))"
  using C8_mutex_invariant [of "mutex_run [Acquire 0, Acquire 1] mutex_start" "Release 0"
      "[Acquire 0, Acquire 1, Release 0, Acquire 2, Release 1, Release 2]"
      "[Call 0 False 0, Call 1 True 0, Resume 0 1]" None]
  by (simp add: mutex_run_def mutex_start_def new_Semaphore_def acquire_def release_def mutex_inv_def)

section \<open>The fetch attempt\<close>

lemmas attempt_defs = resolve_def reject_def browser_close_def invalid_response_def

lemma settled_kept:
  "settled a = Some r \<Longrightarrow> settled (on_event e a) = Some r"
  by (cases e) (simp_all add: attempt_defs Let_def split: option.splits)

lemma settled_kept_fold:
  "settled a = Some r \<Longrightarrow> settled (fold on_event es a) = Some r"
  by (induction es arbitrary: a) (simp_all add: settled_kept)

lemma attempt_inv_step: "attempt_inv a \<Longrightarrow> attempt_inv (on_event e a)"
  by (cases e) (auto simp: attempt_inv_def attempt_defs Let_def split: option.splits)

lemma attempt_inv_fold: "attempt_inv a \<Longrightarrow> attempt_inv (fold on_event es a)"
  by (induction es arbitrary: a) (simp_all add: attempt_inv_step)

lemma timer_stays_off: "\<not> timerPending a \<Longrightarrow> \<not> timerPending (on_event e a)"
  by (cases e) (auto simp: attempt_defs Let_def split: option.splits)

lemma timer_fires: "\<not> timerPending (on_event DeadlineTimer a)"
  by (simp add: attempt_defs Let_def)

lemma timer_off_fold: "\<not> timerPending a \<Longrightarrow> \<not> timerPending (fold on_event es a)"
  by (induction es arbitrary: a) (simp_all add: timer_stays_off)

lemma timer_fired_fold:
  "DeadlineTimer \<in> set es \<Longrightarrow> \<not> timerPending (fold on_event es a)"
proof (induction es arbitrary: a)
  case Nil
  then show ?case by simp
next
  case (Cons e es)
  show ?case
  proof (cases "e = DeadlineTimer")
    case True
    have "\<not> timerPending (on_event DeadlineTimer a)" by (rule timer_fires)
    then have "\<not> timerPending (fold on_event es (on_event DeadlineTimer a))"
      by (rule timer_off_fold)
    then show ?thesis using True by simp
  next
    case False
    with Cons.prems have "DeadlineTimer \<in> set es" by simp
    then show ?thesis using Cons.IH by simp
  qed
qed

lemma attempt_inv_start: "attempt_inv (getAccessToken True True)"
  by (simp add: attempt_inv_def getAccessToken_def new_attempt_def)

text \<open>
  Claim C2, as amended. For an attempt that got its browser and its page, whatever events
  follow and in whatever order: the promise keeps its first settlement (so it never is
  both a success and a failure), a settled promise has had the browser closed at least
  once, and the promise is settled once the deadline timer has fired. The number of
  \<open>browser.close()\<close> calls is not bounded by one: see the counterexample below.
\<close>

theorem C2_settles_once_closes_again:
  "(settled (run_attempt es (getAccessToken True True)) = Some r \<longrightarrow>
      settled (run_attempt (es @ es') (getAccessToken True True)) = Some r)
   \<and> (settled (run_attempt es (getAccessToken True True)) \<noteq> None \<longrightarrow>
      1 \<le> closeCalls (run_attempt es (getAccessToken True True)))
   \<and> (DeadlineTimer \<in> set es \<longrightarrow>
      settled (run_attempt es (getAccessToken True True)) \<noteq> None)"
proof -
  let ?a = "getAccessToken True True"
  have inv: "attempt_inv (run_attempt es ?a)"
    unfolding run_attempt_def using attempt_inv_start by (rule attempt_inv_fold)
  have once: "settled (run_attempt (es @ es') ?a) = Some r"
    if "settled (run_attempt es ?a) = Some r"
    using that by (simp add: run_attempt_def settled_kept_fold)
  have closed: "1 \<le> closeCalls (run_attempt es ?a)" if "settled (run_attempt es ?a) \<noteq> None"
    using inv that by (simp add: attempt_inv_def)
  have deadline: "settled (run_attempt es ?a) \<noteq> None" if "DeadlineTimer \<in> set es"
  proof -
    from that have "\<not> timerPending (run_attempt es ?a)"
      unfolding run_attempt_def by (rule timer_fired_fold)
    with inv show ?thesis by (simp add: attempt_inv_def)
  qed
  show ?thesis using once closed deadline by blast
qed

lemmas attempt_eval = run_attempt_def getAccessToken_def new_attempt_def attempt_defs Let_def

theorem C2_settles_once_closes_again_witness:
  "settled (run_attempt [DeadlineTimer] (getAccessToken True True))
     = Some (Rejected ''Token fetch exceeded deadline'')
   \<and> settled (run_attempt ([DeadlineTimer] @
        [RequestFinished ''https://open.spotify.com/api/token'', ResponseSettled None])
        (getAccessToken True True))
     = Some (Rejected ''Token fetch exceeded deadline'')
   \<and> 1 \<le> closeCalls (run_attempt [DeadlineTimer] (getAccessToken True True))
   \<and> DeadlineTimer \<in> set [DeadlineTimer]"
  using C2_settles_once_closes_again [of "[DeadlineTimer]" "Rejected ''Token fetch exceeded deadline''"
      "[RequestFinished ''https://open.spotify.com/api/token'', ResponseSettled None]"]
  by (simp add: attempt_eval)

text \<open>
  Claim C2 as stated fails: the token request is answered and the promise resolved, the
  listener closes the browser; the timer, which nothing clears, fires later and closes
  the browser a second time.
\<close>

theorem C2_two_releases_counterexample:
  "settled (run_attempt
      [RequestFinished ''https://open.spotify.com/api/token'', ResponseSettled (Some True),
       JsonSettled (Some \<lparr>accessToken = ''BQD'', accessTokenExpirationTimestampMs = 3600000,
                          notes_field = None\<rparr>),
       DeadlineTimer]
      (getAccessToken True True))
     = Some (Resolved \<lparr>accessToken = ''BQD'', accessTokenExpirationTimestampMs = 3600000,
                       notes_field = None\<rparr>)
   \<and> closeCalls (run_attempt
      [RequestFinished ''https://open.spotify.com/api/token'', ResponseSettled (Some True),
       JsonSettled (Some \<lparr>accessToken = ''BQD'', accessTokenExpirationTimestampMs = 3600000,
                          notes_field = None\<rparr>),
       DeadlineTimer]
      (getAccessToken True True)) = 2"
  by (simp add: attempt_eval)

text \<open>
  Claim C6 at a token request whose response is ok and whose body does not parse:
  \<open>json\<close> is \<open>null\<close>, \<open>delete json._notes\<close> throws inside the listener, neither
  \<open>resolve\<close> nor \<open>reject\<close> is called, and the promise stays pending until the timer
  rejects it with the deadline error, not with \<open>Invalid response from Spotify.\<close>
\<close>

theorem C6_unparseable_body_not_rejected:
  "settled (run_attempt
      [RequestFinished ''https://open.spotify.com/api/token'', ResponseSettled (Some True),
       JsonSettled None]
      (getAccessToken True True)) = None
   \<and> uncaught (run_attempt
      [RequestFinished ''https://open.spotify.com/api/token'', ResponseSettled (Some True),
       JsonSettled None]
      (getAccessToken True True)) = [''TypeError: Cannot convert undefined or null to object'']
   \<and> settled (run_attempt
      [RequestFinished ''https://open.spotify.com/api/token'', ResponseSettled (Some True),
       JsonSettled None, DeadlineTimer]
      (getAccessToken True True)) = Some (Rejected ''Token fetch exceeded deadline'')"
  by (simp add: attempt_eval)

text \<open>
  The rest of claim C6 holds: a missing or not-ok response rejects a pending promise with
  the invalid-response error, and a parsed body resolves it with \<open>_notes\<close> removed.
\<close>

lemma missing_or_not_ok_rejected:
  "settled a = None \<Longrightarrow> 0 < awaitingResponse a \<Longrightarrow> r = None \<or> r = Some False \<Longrightarrow>
   settled (on_event (ResponseSettled r) a) = Some (Rejected ''Invalid response from Spotify.'')"
  by (auto simp: attempt_defs Let_def)

lemma parsed_body_resolved:
  "settled a = None \<Longrightarrow> 0 < awaitingJson a \<Longrightarrow>
   settled (on_event (JsonSettled (Some json)) a) = Some (Resolved (json\<lparr>notes_field := None\<rparr>))"
  by (auto simp: attempt_defs Let_def)

text \<open>
  Claim C9. When the browser launched and the page did not open, \<open>getAccessToken\<close>
  closes the browser and rejects, and goes on instead of returning: the timer is set
  and registering the listener throws, so no listener is attached and no navigation is
  started; the timer later closes the browser a second time. A failed launch, in
  contrast, rejects and returns at once.
\<close>

theorem C9_page_failure_continues:
  "getAccessToken True False =
     new_attempt\<lparr>settled := Some (Rejected ''Failed to open new page''), closeCalls := 1,
       timerPending := True,
       uncaught := [''TypeError: Cannot read properties of undefined (reading addListener)'']\<rparr>
   \<and> \<not> listening (getAccessToken True False)
   \<and> \<not> gotoPending (getAccessToken True False)
   \<and> closeCalls (on_event DeadlineTimer (getAccessToken True False)) = 2
   \<and> getAccessToken False False = new_attempt\<lparr>settled := Some (Rejected ''Failed to launch browser'')\<rparr>"
  by (simp add: attempt_eval)

section \<open>The handler\<close>

lemmas handler_eval = run_handler_def new_handler_def new_Semaphore_def valid_def
  acquire_def release_def finish_def data_body_def Let_def

text \<open>
  Claim C4. When the slot holds a credential with \<open>expiry - now > 10000\<close>, a call
  \<open>get(false)\<close> returns that credential at once: the semaphore is not touched,
  whatever its state, and \<open>getAccessToken\<close> is not called.
\<close>

theorem C4_fast_path:
  assumes "cachedAccessToken h = Some c"
    and "accessTokenExpirationTimestampMs c - now > 10000"
    and "calls h i = NotCalled"
  shows "handler0 (Call i False now) h
           = h\<lparr>calls := (calls h)(i := Returned \<lparr>status = None, body = Token c\<rparr>)\<rparr>
         \<and> semaphore (handler0 (Call i False now) h) = semaphore h
         \<and> fetchCalls (handler0 (Call i False now) h) = fetchCalls h"
  using assms by (simp add: valid_Some data_body_def)

theorem C4_fast_path_witness:
  "cachedAccessToken (new_handler (Some \<lparr>accessToken = ''A'', accessTokenExpirationTimestampMs = 20001,
                           notes_field = None\<rparr>))
     = Some \<lparr>accessToken = ''A'', accessTokenExpirationTimestampMs = 20001, notes_field = None\<rparr>
   \<and> (20001::int) - 10000 > 10000
   \<and> calls (new_handler (Some \<lparr>accessToken = ''A'', accessTokenExpirationTimestampMs = 20001,
                           notes_field = None\<rparr>)) 7 = NotCalled
   \<and> calls (handler0 (Call 7 False 10000)
        (new_handler (Some \<lparr>accessToken = ''A'', accessTokenExpirationTimestampMs = 20001,
                             notes_field = None\<rparr>))) 7
       = Returned \<lparr>status = None, body = Token \<lparr>accessToken = ''A'',
            accessTokenExpirationTimestampMs = 20001, notes_field = None\<rparr>\<rparr>
   \<and> semaphore (handler0 (Call 7 False 10000)
        (new_handler (Some \<lparr>accessToken = ''A'', accessTokenExpirationTimestampMs = 20001,
                             notes_field = None\<rparr>))) = new_Semaphore
   \<and> fetchCalls (handler0 (Call 7 False 10000)
        (new_handler (Some \<lparr>accessToken = ''A'', accessTokenExpirationTimestampMs = 20001,
                             notes_field = None\<rparr>))) = 0"
  using C4_fast_path [of
      "new_handler (Some \<lparr>accessToken = ''A'', accessTokenExpirationTimestampMs = 20001,
                           notes_field = None\<rparr>)"
      "\<lparr>accessToken = ''A'', accessTokenExpirationTimestampMs = 20001, notes_field = None\<rparr>"
      10000 7]
  by (simp add: new_handler_def)


text \<open>
  Claim C10. On an empty slot \<open>valid()\<close> is false and raises nothing, so a call with an
  empty slot, forced or not, goes to \<open>acquire()\<close>, and once it has the lock it calls
  \<open>getAccessToken\<close>.
\<close>

theorem C10_empty_slot_refreshes:
  "\<not> valid None now
   \<and> (cachedAccessToken h = None \<and> calls h i = NotCalled \<longrightarrow>
        handler0 (Call i isForce now) h
          = h\<lparr>semaphore := fst (acquire i (semaphore h)),
               calls := (calls h)(i := (if snd (acquire i (semaphore h))
                                        then Granted isForce else Queued isForce))\<rparr>)
   \<and> (cachedAccessToken h = None \<and> calls h i = Granted isForce \<longrightarrow>
        handler0 (Resume i now) h
          = h\<lparr>fetchCalls := Suc (fetchCalls h), calls := (calls h)(i := Refreshing)\<rparr>)"
  by (simp add: valid_None split: prod.splits)

theorem C10_empty_slot_refreshes_witness:
  "cachedAccessToken (new_handler None) = None
   \<and> calls (new_handler None) 0 = NotCalled
   \<and> calls (handler0 (Call 0 False 0) (new_handler None)) 0 = Granted False
   \<and> cachedAccessToken (handler0 (Call 0 False 0) (new_handler None)) = None
   \<and> fetchCalls (handler0 (Resume 0 1) (handler0 (Call 0 False 0) (new_handler None))) = 1
   \<and> calls (handler0 (Resume 0 1) (handler0 (Call 0 False 0) (new_handler None))) 0 = Refreshing"
  using C10_empty_slot_refreshes [of 0 "new_handler None" 0 False]
    C10_empty_slot_refreshes [of 1 "handler0 (Call 0 False 0) (new_handler None)" 0 False]
  by (simp add: handler_eval)









subsection \<open>Overlapping calls\<close>

lemma call_queues:
  assumes "locked (semaphore h)" and "calls h i = NotCalled"
    and "\<not> valid (cachedAccessToken h) now"
  shows "handler0 (Call i False now) h
           = h\<lparr>semaphore := (semaphore h)\<lparr>waiters := waiters (semaphore h) @ [i]\<rparr>,
               calls := (calls h)(i := Queued False)\<rparr>"
  using assms by (simp add: acquire_def)

lemma calls_queue:
  assumes "locked (semaphore h)" and "distinct js"
    and "\<forall>j\<in>set js. calls h j = NotCalled"
    and "\<forall>j\<in>set js. \<not> valid (cachedAccessToken h) (tc j)"
  shows "fold handler0 (map (\<lambda>j. Call j False (tc j)) js) h
           = h\<lparr>semaphore := (semaphore h)\<lparr>waiters := waiters (semaphore h) @ js\<rparr>,
               calls := (\<lambda>j. if j \<in> set js then Queued False else calls h j)\<rparr>"
  using assms
proof (induction js arbitrary: h)
  case Nil
  then show ?case by simp
next
  case (Cons i js)
  let ?h1 = "h\<lparr>semaphore := (semaphore h)\<lparr>waiters := waiters (semaphore h) @ [i]\<rparr>,
               calls := (calls h)(i := Queued False)\<rparr>"
  have step: "handler0 (Call i False (tc i)) h = ?h1"
    using Cons.prems by (intro call_queues) simp_all
  have "fold handler0 (map (\<lambda>j. Call j False (tc j)) js) ?h1
          = ?h1\<lparr>semaphore := (semaphore ?h1)\<lparr>waiters := waiters (semaphore ?h1) @ js\<rparr>,
               calls := (\<lambda>j. if j \<in> set js then Queued False else calls ?h1 j)\<rparr>"
    using Cons.prems by (intro Cons.IH) auto
  also have "\<dots> = h\<lparr>semaphore := (semaphore h)\<lparr>waiters := waiters (semaphore h) @ i # js\<rparr>,
               calls := (\<lambda>j. if j \<in> set (i # js) then Queued False else calls h j)\<rparr>"
    by (auto simp: fun_eq_iff)
  finally show ?case using step by simp
qed

lemma resume_returns:
  assumes "cachedAccessToken h = Some tok" and "calls h k = Granted False"
    and "valid (Some tok) now"
  shows "handler0 (Resume k now) h = finish k \<lparr>status = None, body = Token tok\<rparr> h"
  using assms by (simp add: data_body_def)

lemma resumes_drain:
  assumes "cachedAccessToken h = Some tok" and "calls h k = Granted False"
    and "waiters (semaphore h) = ws" and "distinct (k # ws)"
    and "\<forall>w\<in>set ws. calls h w = Queued False"
    and "\<forall>j\<in>set (k # ws). valid (Some tok) (tr j)"
  shows "fold handler0 (map (\<lambda>j. Resume j (tr j)) (k # ws)) h
           = h\<lparr>semaphore := (semaphore h)\<lparr>locked := False, waiters := []\<rparr>,
               calls := (\<lambda>j. if j \<in> set (k # ws)
                               then Returned \<lparr>status = None, body = Token tok\<rparr> else calls h j)\<rparr>"
  using assms
proof (induction ws arbitrary: k h)
  case Nil
  then have "handler0 (Resume k (tr k)) h = finish k \<lparr>status = None, body = Token tok\<rparr> h"
    by (intro resume_returns) simp_all
  then show ?case using Nil.prems
    by (auto simp: finish_def release_def fun_eq_iff)
next
  case (Cons w ws)
  let ?h1 = "h\<lparr>semaphore := (semaphore h)\<lparr>waiters := ws\<rparr>,
               calls := (calls h)(k := Returned \<lparr>status = None, body = Token tok\<rparr>,
                                  w := Granted False)\<rparr>"
  have "handler0 (Resume k (tr k)) h = finish k \<lparr>status = None, body = Token tok\<rparr> h"
    using Cons.prems by (intro resume_returns) simp_all
  also have "\<dots> = ?h1"
    using Cons.prems by (simp add: finish_def release_def)
  finally have step: "handler0 (Resume k (tr k)) h = ?h1" .
  have "fold handler0 (map (\<lambda>j. Resume j (tr j)) (w # ws)) ?h1
          = ?h1\<lparr>semaphore := (semaphore ?h1)\<lparr>locked := False, waiters := []\<rparr>,
               calls := (\<lambda>j. if j \<in> set (w # ws)
                               then Returned \<lparr>status = None, body = Token tok\<rparr> else calls ?h1 j)\<rparr>"
    using Cons.prems by (intro Cons.IH) auto
  also have "\<dots> = h\<lparr>semaphore := (semaphore h)\<lparr>locked := False, waiters := []\<rparr>,
               calls := (\<lambda>j. if j \<in> set (k # w # ws)
                               then Returned \<lparr>status = None, body = Token tok\<rparr> else calls h j)\<rparr>"
    by (auto simp: fun_eq_iff)
  finally show ?case using step by simp
qed


lemma settle_hands_over:
  assumes "calls h 0 = Refreshing" and "waiters (semaphore h) = w # ws" and "w \<noteq> 0"
    and "calls h w = Queued False"
  shows "handler0 (FetchSettled 0 (Resolved tok)) h
           = h\<lparr>cachedAccessToken := Some tok, semaphore := (semaphore h)\<lparr>waiters := ws\<rparr>,
               calls := (calls h)(0 := Returned \<lparr>status = None, body = Token tok\<rparr>,
                                  w := Granted False)\<rparr>"
  using assms by (simp add: finish_def release_def)

lemma settle_frees:
  assumes "calls h 0 = Refreshing" and "waiters (semaphore h) = []"
  shows "handler0 (FetchSettled 0 (Resolved tok)) h
           = h\<lparr>cachedAccessToken := Some tok, semaphore := (semaphore h)\<lparr>locked := False\<rparr>,
               calls := (calls h)(0 := Returned \<lparr>status = None, body = Token tok\<rparr>)\<rparr>"
  using assms by (simp add: finish_def release_def)

lemma before_settlement:
  assumes "0 < k" and "k \<le> n"
    and "\<forall>i<n. \<not> valid c (tc i)"
    and "\<not> valid c (tr 0)"
  shows "fold handler0
           (map (\<lambda>i. Call i False (tc i)) [0..<k] @ [Resume 0 (tr 0)]
            @ map (\<lambda>i. Call i False (tc i)) [k..<n]) (new_handler c)
         = \<lparr>cachedAccessToken = c, semaphore = \<lparr>locked = True, waiters = [1..<n]\<rparr>,
            calls = (\<lambda>j. if j = 0 then Refreshing else if j < n then Queued False else NotCalled),
            fetchCalls = 1, errors = []\<rparr>"
proof -
  define h1 where "h1 = \<lparr>cachedAccessToken = c, semaphore = \<lparr>locked = True, waiters = []\<rparr>,
      calls = (\<lambda>j. if j = 0 then Granted False else NotCalled), fetchCalls = 0, errors = []\<rparr>"
  define h2 where "h2 = \<lparr>cachedAccessToken = c, semaphore = \<lparr>locked = True, waiters = [1..<k]\<rparr>,
      calls = (\<lambda>j. if j = 0 then Granted False else if j < k then Queued False else NotCalled),
      fetchCalls = 0, errors = []\<rparr>"
  define h3 where "h3 = \<lparr>cachedAccessToken = c, semaphore = \<lparr>locked = True, waiters = [1..<k]\<rparr>,
      calls = (\<lambda>j. if j = 0 then Refreshing else if j < k then Queued False else NotCalled),
      fetchCalls = 1, errors = []\<rparr>"
  have first: "[0..<k] = 0 # [1..<k]"
    using assms(1) by (simp add: upt_conv_Cons)
  have s1: "handler0 (Call 0 False (tc 0)) (new_handler c) = h1"
    using assms by (auto simp: h1_def new_handler_def new_Semaphore_def acquire_def fun_eq_iff)
  have "fold handler0 (map (\<lambda>j. Call j False (tc j)) [1..<k]) h1
          = h1\<lparr>semaphore := (semaphore h1)\<lparr>waiters := waiters (semaphore h1) @ [1..<k]\<rparr>,
               calls := (\<lambda>j. if j \<in> set [1..<k] then Queued False else calls h1 j)\<rparr>"
    using assms by (intro calls_queue) (auto simp: h1_def)
  also have "\<dots> = h2"
    by (auto simp: h1_def h2_def fun_eq_iff)
  finally have s2: "fold handler0 (map (\<lambda>j. Call j False (tc j)) [1..<k]) h1 = h2" .
  have s3: "handler0 (Resume 0 (tr 0)) h2 = h3"
    using assms(4) by (auto simp: h2_def h3_def fun_eq_iff)
  have "fold handler0 (map (\<lambda>j. Call j False (tc j)) [k..<n]) h3
          = h3\<lparr>semaphore := (semaphore h3)\<lparr>waiters := waiters (semaphore h3) @ [k..<n]\<rparr>,
               calls := (\<lambda>j. if j \<in> set [k..<n] then Queued False else calls h3 j)\<rparr>"
    using assms by (intro calls_queue) (auto simp: h3_def)
  also have "\<dots> = \<lparr>cachedAccessToken = c, semaphore = \<lparr>locked = True, waiters = [1..<k] @ [k..<n]\<rparr>,
            calls = (\<lambda>j. if j = 0 then Refreshing else if j < n then Queued False else NotCalled),
            fetchCalls = 1, errors = []\<rparr>"
    using assms(1,2) by (auto simp: h3_def fun_eq_iff)
  also have "[1..<k] @ [k..<n] = [1..<n]"
    using assms(1,2) upt_add_eq_append [of 1 k "n - k"] by simp
  finally have s4: "fold handler0 (map (\<lambda>j. Call j False (tc j)) [k..<n]) h3
          = \<lparr>cachedAccessToken = c, semaphore = \<lparr>locked = True, waiters = [1..<n]\<rparr>,
            calls = (\<lambda>j. if j = 0 then Refreshing else if j < n then Queued False else NotCalled),
            fetchCalls = 1, errors = []\<rparr>" .
  show ?thesis
    by (simp only: first fold_append fold_simps list.map comp_apply s1 s2 s3 s4)
qed

text \<open>
  Claim C1, as amended. \<open>n\<close> overlapping calls \<open>get(false)\<close> arrive while the slot is
  empty or expired and the lock is free. When the fetch of the first call resolves with
  a credential that is valid each time a queued call runs again, \<open>getAccessToken\<close> is
  called exactly once, every one of the \<open>n\<close> calls returns that credential, the slot
  holds it and the lock ends free with nobody queued.
\<close>

theorem C1_single_flight_on_success:
  assumes "0 < k" and "k \<le> n"
    and "\<forall>i<n. \<not> valid c (tc i)"
    and "\<not> valid c (tr 0)"
    and "\<forall>i. 0 < i \<and> i < n \<longrightarrow> valid (Some tok) (tr i)"
  shows "fetchCalls (run_handler (concurrent_gets k n tc tr (Resolved tok)) (new_handler c)) = 1
         \<and> (\<forall>i<n. calls (run_handler (concurrent_gets k n tc tr (Resolved tok)) (new_handler c)) i
                    = Returned \<lparr>status = None, body = Token tok\<rparr>)
         \<and> cachedAccessToken (run_handler (concurrent_gets k n tc tr (Resolved tok)) (new_handler c))
             = Some tok
         \<and> semaphore (run_handler (concurrent_gets k n tc tr (Resolved tok)) (new_handler c))
             = new_Semaphore"
proof -
  define h4 where "h4 = \<lparr>cachedAccessToken = c, semaphore = \<lparr>locked = True, waiters = [1..<n]\<rparr>,
      calls = (\<lambda>j. if j = 0 then Refreshing else if j < n then Queued False else NotCalled),
      fetchCalls = 1, errors = []\<rparr>"
  define final where
    "final = run_handler (concurrent_gets k n tc tr (Resolved tok)) (new_handler c)"
  have "fold handler0
           (map (\<lambda>i. Call i False (tc i)) [0..<k] @ [Resume 0 (tr 0)]
            @ map (\<lambda>i. Call i False (tc i)) [k..<n]) (new_handler c) = h4"
    unfolding h4_def using assms(1-4) by (rule before_settlement)
  then have run: "final = fold handler0 (map (\<lambda>j. Resume j (tr j)) [1..<n])
      (handler0 (FetchSettled 0 (Resolved tok)) h4)"
    by (simp add: final_def run_handler_def concurrent_gets_def)
  have result: "fetchCalls final = 1
         \<and> (\<forall>i<n. calls final i = Returned \<lparr>status = None, body = Token tok\<rparr>)
         \<and> cachedAccessToken final = Some tok
         \<and> semaphore final = new_Semaphore"
  proof (cases "n = 1")
    case True
    have "handler0 (FetchSettled 0 (Resolved tok)) h4
            = h4\<lparr>cachedAccessToken := Some tok, semaphore := (semaphore h4)\<lparr>locked := False\<rparr>,
               calls := (calls h4)(0 := Returned \<lparr>status = None, body = Token tok\<rparr>)\<rparr>"
      using True by (intro settle_frees) (simp_all add: h4_def)
    then show ?thesis using True run
      by (simp add: h4_def new_Semaphore_def)
  next
    case False
    with assms(1,2) have more: "1 < n" by simp
    then have queue: "[1..<n] = 1 # [2..<n]"
      by (simp add: upt_conv_Cons numeral_2_eq_2)
    define h5 where "h5 = h4\<lparr>cachedAccessToken := Some tok,
               semaphore := (semaphore h4)\<lparr>waiters := [2..<n]\<rparr>,
               calls := (calls h4)(0 := Returned \<lparr>status = None, body = Token tok\<rparr>,
                                   1 := Granted False)\<rparr>"
    have "handler0 (FetchSettled 0 (Resolved tok)) h4 = h5"
      unfolding h5_def using more queue by (intro settle_hands_over) (simp_all add: h4_def)
    then have "final = fold handler0 (map (\<lambda>j. Resume j (tr j)) (1 # [2..<n])) h5"
      using run queue by simp
    also have "\<dots> = h5\<lparr>semaphore := (semaphore h5)\<lparr>locked := False, waiters := []\<rparr>,
               calls := (\<lambda>j. if j \<in> set (1 # [2..<n])
                               then Returned \<lparr>status = None, body = Token tok\<rparr> else calls h5 j)\<rparr>"
      using assms(5) more by (intro resumes_drain) (auto simp: h5_def h4_def)
    finally have "final = h5\<lparr>semaphore := (semaphore h5)\<lparr>locked := False, waiters := []\<rparr>,
               calls := (\<lambda>j. if j \<in> set [1..<n]
                               then Returned \<lparr>status = None, body = Token tok\<rparr> else calls h5 j)\<rparr>"
      using queue by simp
    then show ?thesis
      by (auto simp: h5_def h4_def new_Semaphore_def)
  qed
  then show ?thesis by (simp add: final_def)
qed

theorem C1_single_flight_on_success_witness:
  "(0::nat) < 2 \<and> (2::nat) \<le> 3
   \<and> \<not> valid None 0 \<and> \<not> valid None 1
   \<and> valid (Some \<lparr>accessToken = ''BQD'', accessTokenExpirationTimestampMs = 3600000,
                    notes_field = None\<rparr>) 20000
   \<and> fetchCalls (run_handler (concurrent_gets 2 3 (\<lambda>i. 0) (\<lambda>i. if i = 0 then 1 else 20000)
        (Resolved \<lparr>accessToken = ''BQD'', accessTokenExpirationTimestampMs = 3600000,
                    notes_field = None\<rparr>)) (new_handler None)) = 1
   \<and> calls (run_handler (concurrent_gets 2 3 (\<lambda>i. 0) (\<lambda>i. if i = 0 then 1 else 20000)
        (Resolved \<lparr>accessToken = ''BQD'', accessTokenExpirationTimestampMs = 3600000,
                    notes_field = None\<rparr>)) (new_handler None)) 2
       = Returned \<lparr>status = None, body = Token \<lparr>accessToken = ''BQD'',
           accessTokenExpirationTimestampMs = 3600000, notes_field = None\<rparr>\<rparr>
   \<and> semaphore (run_handler (concurrent_gets 2 3 (\<lambda>i. 0) (\<lambda>i. if i = 0 then 1 else 20000)
        (Resolved \<lparr>accessToken = ''BQD'', accessTokenExpirationTimestampMs = 3600000,
                    notes_field = None\<rparr>)) (new_handler None)) = new_Semaphore"
  using C1_single_flight_on_success [of 2 3 None "\<lambda>i. 0" "\<lambda>i. if i = 0 then 1 else 20000"
      "\<lparr>accessToken = ''BQD'', accessTokenExpirationTimestampMs = 3600000, notes_field = None\<rparr>"]
  by (simp add: valid_def)

text \<open>
  Claim C1 as stated fails when the fetch is rejected: the first of two overlapping calls
  answers with status 500, and the second, once it has the lock, finds the slot still
  empty and calls \<open>getAccessToken\<close> a second time.
\<close>

theorem C1_failure_not_shared_counterexample:
  "fetchCalls (run_handler
      [Call 0 False 0, Call 1 False 0, Resume 0 1,
       FetchSettled 0 (Rejected ''Token fetch exceeded deadline''), Resume 1 15001]
      (new_handler None)) = 2
   \<and> calls (run_handler
      [Call 0 False 0, Call 1 False 0, Resume 0 1,
       FetchSettled 0 (Rejected ''Token fetch exceeded deadline''), Resume 1 15001]
      (new_handler None)) 0 = Returned \<lparr>status = Some 500, body = EmptyObject\<rparr>
   \<and> calls (run_handler
      [Call 0 False 0, Call 1 False 0, Resume 0 1,
       FetchSettled 0 (Rejected ''Token fetch exceeded deadline''), Resume 1 15001]
      (new_handler None)) 1 = Refreshing"
  by (simp add: handler_eval)

end
